theory Spec2Isabelle
  imports Main "HOL-Library.Sublist"
begin

section \<open>The link matcher: \<^verbatim>\<open>SHORTS_REGEX\<close> and \<^verbatim>\<open>extract_shorts_links\<close>\<close>

text \<open>
  A Python \<^verbatim>\<open>str\<close> is a sequence of Unicode code points. The pattern is written with ASCII
  characters only, so pattern characters are HOL characters and the text is a list of code
  points.
\<close>

type_synonym codepoint = nat
type_synonym py_str = "codepoint list"

definition codepoints :: "string \<Rightarrow> py_str" where
  "codepoints cs = map of_char cs"

text \<open>
  The pattern language that \<^verbatim>\<open>SHORTS_REGEX\<close> uses: literal characters, character classes of
  single characters and ranges, the dot, concatenation, \<^verbatim>\<open>?\<close> and \<^verbatim>\<open>*\<close> (both greedy). The
  groups of the source are all non-capturing, so a match is its matched text only.
\<close>

datatype item = Ch char | Range char char

datatype re = Eps | Lit char | OneOf "item list" | Dot | Seq re re | Opt re | Star re

text \<open>
  The pattern is compiled with the inline flags \<^verbatim>\<open>(?ix)\<close>. \<^verbatim>\<open>x\<close> only lets the source
  lay the pattern out over several lines. \<^verbatim>\<open>i\<close> is \<^verbatim>\<open>re.IGNORECASE\<close> on a \<^verbatim>\<open>str\<close> pattern
  without \<^verbatim>\<open>re.ASCII\<close>: a code point of the text matches an ASCII pattern character when
  one of its case variants is that character. Besides the two ASCII cases of a letter these
  are, as the documentation of \<^verbatim>\<open>re.IGNORECASE\<close> lists them, U+0130 and U+0131 for
  \<^verbatim>\<open>i\<close>, U+017F for \<^verbatim>\<open>s\<close> and U+212A for \<^verbatim>\<open>k\<close>. \<open>ignorecase_folds x\<close> lists the ASCII
  pattern characters that the code point \<open>x\<close> matches, and \<open>x\<close> itself.
\<close>

definition ignorecase_folds :: "codepoint \<Rightarrow> codepoint list" where
  "ignorecase_folds x =
     (if 65 \<le> x \<and> x \<le> 90 then [x, x + 32]
      else if 97 \<le> x \<and> x \<le> 122 then [x, x - 32]
      else if x = 304 \<or> x = 305 then [x, 105, 73]
      else if x = 383 then [x, 115, 83]
      else if x = 8490 then [x, 107, 75]
      else [x])"

definition ignorecase_matches :: "char \<Rightarrow> codepoint \<Rightarrow> bool" where
  "ignorecase_matches p x = (of_char p \<in> set (ignorecase_folds x))"

fun item_matches :: "item \<Rightarrow> codepoint \<Rightarrow> bool" where
  "item_matches (Ch p) x = ignorecase_matches p x"
| "item_matches (Range lo hi) x =
     list_ex (\<lambda>c. of_char lo \<le> c \<and> c \<le> of_char hi) (ignorecase_folds x)"

definition in_class :: "item list \<Rightarrow> codepoint \<Rightarrow> bool" where
  "in_class items x = list_ex (\<lambda>i. item_matches i x) items"

definition match_char :: "(codepoint \<Rightarrow> bool) \<Rightarrow> py_str \<Rightarrow> py_str list" where
  "match_char P s = (case s of [] \<Rightarrow> [] | x # xs \<Rightarrow> if P x then [xs] else [])"

text \<open>
  The backtracking matcher. \<open>ms r s\<close> lists, in the order in which the engine tries them,
  the texts that remain after each way of matching \<open>r\<close> at the start of \<open>s\<close>: the
  first element is the match the engine reports, the later ones are what it falls back to.
  \<^verbatim>\<open>?\<close> and \<^verbatim>\<open>*\<close> are greedy, and \<^verbatim>\<open>.\<close> matches every code point but the newline
  (no \<^verbatim>\<open>re.DOTALL\<close>).
\<close>

fun ms :: "re \<Rightarrow> py_str \<Rightarrow> py_str list" where
  "ms Eps s = [s]"
| "ms (Lit p) s = match_char (ignorecase_matches p) s"
| "ms (OneOf items) s = match_char (in_class items) s"
| "ms Dot s = match_char (\<lambda>x. x \<noteq> 10) s"
| "ms (Seq a b) s = concat (map (ms b) (ms a s))"
| "ms (Opt a) s = ms a s @ [s]"
| "ms (Star a) s =
     concat (map (\<lambda>t. if length t < length s then ms (Star a) t else []) (ms a s)) @ [s]"

lemmas ms_Star = ms.simps(7)

declare ms.simps(7) [simp del]

definition str :: "string \<Rightarrow> re" where
  "str cs = foldr (\<lambda>c r. Seq (Lit c) r) cs Eps"

fun at_least :: "nat \<Rightarrow> re \<Rightarrow> re" where
  "at_least 0 r = Star r"
| "at_least (Suc n) r = Seq r (at_least n r)"

text \<open>
  \<^verbatim>\<open>https?://  (?:www\.)?(?:m\.)?youtube\.com/shorts/  [A-Za-z0-9_-]{5,}  (?:[/?#&].*)?\<close>
\<close>

definition id_class :: "item list" where
  "id_class = [Range CHR ''A'' CHR ''Z'', Range CHR ''a'' CHR ''z'',
               Range CHR ''0'' CHR ''9'', Ch CHR ''_'', Ch CHR ''-'']"

definition link_tail :: re where
  "link_tail =
     Seq (at_least 5 (OneOf id_class))
       (Seq (Opt (Seq (OneOf [Ch CHR ''/'', Ch CHR ''?'', Ch CHR ''#'', Ch CHR ''&''])
                      (Star Dot)))
          Eps)"

definition SHORTS_REGEX :: re where
  "SHORTS_REGEX =
     Seq (str ''http'') (Seq (Opt (Lit CHR ''s'')) (Seq (str ''://'')
       (Seq (Opt (str ''www.'')) (Seq (Opt (str ''m.''))
         (Seq (str ''youtube.com/shorts/'') link_tail)))))"

text \<open>Every way of matching leaves a suffix of the text; the scan below terminates by it.\<close>

lemma ms_suffix: "t \<in> set (ms r s) \<Longrightarrow> suffix t s"
proof (induction r s arbitrary: t rule: ms.induct)
  case (5 a b s)
  from "5.prems" obtain m where m: "m \<in> set (ms a s)" and t: "t \<in> set (ms b m)"
    by auto
  from "5.IH"(1)[OF m] "5.IH"(2)[OF m t] show ?case
    by (rule suffix_order.trans[rotated])
next
  case (6 a s)
  then show ?case by auto
next
  case (7 a s)
  show ?case
  proof (cases "t = s")
    case True
    then show ?thesis by simp
  next
    case False
    with "7.prems" obtain m where m: "m \<in> set (ms a s)" and l: "length m < length s"
      and t: "t \<in> set (ms (Star a) m)"
      unfolding ms_Star[of a s] by (auto split: if_splits)
    from "7.IH"(1)[OF m] "7.IH"(2)[OF m l t] show ?thesis
      by (rule suffix_order.trans[rotated])
  qed
qed (auto simp: match_char_def suffix_def split: list.splits if_splits)

text \<open>
  \<^verbatim>\<open>Pattern.findall\<close>: scan the text from left to right. At each position the first match
  in the engine's order is reported and the scan goes on where it ends; where nothing
  matches the scan moves on by one code point. After an empty match the engine looks at
  the same position once more for a match that is not empty (\<open>must_advance\<close>).
\<close>

function findall_from :: "re \<Rightarrow> bool \<Rightarrow> py_str \<Rightarrow> py_str list" where
  "findall_from r must_advance s =
     (case find (\<lambda>t. \<not> must_advance \<or> t \<noteq> s) (ms r s) of
        Some t \<Rightarrow>
          take (length s - length t) s #
            (if t = s then findall_from r True s else findall_from r False t)
      | None \<Rightarrow> (case s of [] \<Rightarrow> [] | x # s' \<Rightarrow> findall_from r False s'))"
  by pat_completeness auto
termination
proof (relation "measure (\<lambda>(r, ma, s). 2 * length s + (if ma then 0 else 1))")
  fix r :: re and must_advance :: bool and s t :: py_str
  assume f: "find (\<lambda>t. \<not> must_advance \<or> t \<noteq> s) (ms r s) = Some t"
  then have mem: "t \<in> set (ms r s)" and p: "\<not> must_advance \<or> t \<noteq> s"
    by (auto simp: find_Some_iff)
  { assume "t = s"
    with p show "((r, True, s), (r, must_advance, s))
        \<in> measure (\<lambda>(r, ma, s). 2 * length s + (if ma then 0 else 1))" by simp }
  { assume ne: "t \<noteq> s"
    from ms_suffix[OF mem] obtain u where "s = u @ t" by (auto simp: suffix_def)
    with ne have "length t < length s" by (cases u) auto
    then show "((r, False, t), (r, must_advance, s))
        \<in> measure (\<lambda>(r, ma, s). 2 * length s + (if ma then 0 else 1))" by simp }
qed auto

declare findall_from.simps [simp del]

definition findall :: "re \<Rightarrow> py_str \<Rightarrow> py_str list" where
  "findall r s = findall_from r False s"

text \<open>
  \<^verbatim>\<open>def extract_shorts_links(text): return SHORTS_REGEX.findall(text or "")\<close>.
  \<^verbatim>\<open>None\<close> and the empty string are both falsy, so both are searched as \<^verbatim>\<open>""\<close>.
\<close>

definition extract_shorts_links :: "py_str option \<Rightarrow> py_str list" where
  "extract_shorts_links txt = findall SHORTS_REGEX (case txt of None \<Rightarrow> [] | Some t \<Rightarrow> t)"

section \<open>Configuration\<close>

definition ROLLING_WINDOW_DAYS :: int where
  "ROLLING_WINDOW_DAYS = 7"

definition DELETE_OFFENDING_MESSAGES :: bool where
  "DELETE_OFFENDING_MESSAGES = True"

definition DM_USER_ON_BLOCK :: bool where
  "DM_USER_ON_BLOCK = True"

section \<open>The occurrence store: the table \<^verbatim>\<open>shorts_posts\<close>\<close>

text \<open>
  One row per recorded post. The table is kept in insertion order; \<open>last_id\<close> is the
  largest id handed out so far (\<^verbatim>\<open>INTEGER PRIMARY KEY AUTOINCREMENT\<close>).
\<close>

record row =
  row_id :: int
  guild_id :: int
  user_id :: int
  posted_at_utc :: int

record database =
  shorts_posts :: "row list"
  last_id :: int

text \<open>
  \<^verbatim>\<open>INSERT INTO shorts_posts (guild_id, user_id, posted_at_utc) VALUES (?, ?, ?)\<close>
\<close>

definition insert_post :: "database \<Rightarrow> int \<Rightarrow> int \<Rightarrow> int \<Rightarrow> database" where
  "insert_post d g u t =
     \<lparr>shorts_posts = shorts_posts d @
        [\<lparr>row_id = last_id d + 1, guild_id = g, user_id = u, posted_at_utc = t\<rparr>],
      last_id = last_id d + 1\<rparr>"

text \<open>
  \<^verbatim>\<open>WHERE guild_id = ? AND user_id = ? AND posted_at_utc >= ?\<close>. The guild parameter of
  the slash commands is \<^verbatim>\<open>interaction.guild_id\<close>, which is \<^verbatim>\<open>None\<close> outside a guild; bound
  as \<^verbatim>\<open>NULL\<close> it equals no row's \<^verbatim>\<open>guild_id\<close>.
\<close>

definition in_window :: "int option \<Rightarrow> int \<Rightarrow> int \<Rightarrow> row \<Rightarrow> bool" where
  "in_window g u cutoff r =
     ((case g of None \<Rightarrow> False | Some g' \<Rightarrow> guild_id r = g') \<and> user_id r = u \<and>
      cutoff \<le> posted_at_utc r)"

primrec count_rows :: "(row \<Rightarrow> bool) \<Rightarrow> row list \<Rightarrow> int" where
  "count_rows P [] = 0"
| "count_rows P (r # rs) = (if P r then 1 else 0) + count_rows P rs"

primrec delete_rows :: "(row \<Rightarrow> bool) \<Rightarrow> row list \<Rightarrow> row list" where
  "delete_rows P [] = []"
| "delete_rows P (r # rs) = (if P r then delete_rows P rs else r # delete_rows P rs)"

text \<open>\<^verbatim>\<open>SELECT COUNT(*) FROM shorts_posts WHERE ...\<close>\<close>

definition count_since :: "database \<Rightarrow> int option \<Rightarrow> int \<Rightarrow> int \<Rightarrow> int" where
  "count_since d g u cutoff = count_rows (in_window g u cutoff) (shorts_posts d)"

text \<open>\<^verbatim>\<open>DELETE FROM shorts_posts WHERE ...\<close>\<close>

definition delete_since :: "database \<Rightarrow> int option \<Rightarrow> int \<Rightarrow> int \<Rightarrow> database" where
  "delete_since d g u cutoff =
     d\<lparr>shorts_posts := delete_rows (in_window g u cutoff) (shorts_posts d)\<rparr>"

section \<open>The clock\<close>

text \<open>
  A reading of the system clock is a number of microseconds since the epoch, the
  resolution of \<^verbatim>\<open>datetime\<close>. Python's \<^verbatim>\<open>int\<close> of a float truncates towards zero.
  \<open>now_epoch\<close> is \<^verbatim>\<open>int(time.time())\<close> and \<open>window_start\<close> is
  \<^verbatim>\<open>int((datetime.now(timezone.utc) - timedelta(days=days)).timestamp())\<close>. The float
  that \<^verbatim>\<open>timestamp()\<close> and \<^verbatim>\<open>time.time()\<close> return in between is fine enough, for the dates
  of the next centuries, for its truncation to be that of the exact quotient.
\<close>

definition trunc_seconds :: "int \<Rightarrow> int" where
  "trunc_seconds us = (if 0 \<le> us then us div 1000000 else - ((- us) div 1000000))"

definition now_epoch :: "int \<Rightarrow> int" where
  "now_epoch us = trunc_seconds us"

definition window_start :: "int \<Rightarrow> int \<Rightarrow> int" where
  "window_start us days = trunc_seconds (us - days * 86400 * 1000000)"

section \<open>The message handler\<close>

text \<open>
  What the world outside the handler answers during one call: the clock readings, whether
  the database operations raise, and how the Discord calls end (normally, with
  \<^verbatim>\<open>discord.Forbidden\<close>, or with another \<^verbatim>\<open>discord.HTTPException\<close>).
\<close>

datatype api_result = Done | Forbidden | HTTPError

record env =
  clock_count :: int
  clock_record :: int
  count_fails :: bool
  record_fails :: bool
  delete_result :: api_result
  send_result :: api_result
  notice_delete_result :: api_result
  dm_result :: api_result

record message =
  author_bot :: bool
  webhook_id :: "int option"
  content :: "py_str option"
  guild :: "int option"
  author_id :: int

text \<open>
  The calls the handler makes on the platform, in order. \<open>SendNotice remark\<close> is the
  channel notice, with or without the remark that the bot may not delete messages.
\<close>

datatype action =
  DeleteMessage | SendNotice bool | Sleep nat | DeleteNotice | SendPrivateNotice
  | ProcessCommands | Respond

record world =
  store :: database
  trace :: "action list"

datatype error = StorageError | DiscordHTTPException

text \<open>The path on which the handler returns; an exception that leaves it is an \<open>error\<close>.\<close>

datatype outcome = Ignored | Passthrough | Allowed | Blocked

definition truthy :: "int option \<Rightarrow> bool" where
  "truthy v = (case v of None \<Rightarrow> False | Some n \<Rightarrow> n \<noteq> 0)"

definition process_commands :: "world \<Rightarrow> world" where
  "process_commands w = w\<lparr>trace := trace w @ [ProcessCommands]\<rparr>"

definition record_shorts_post :: "env \<Rightarrow> database \<Rightarrow> int \<Rightarrow> int \<Rightarrow> error + database" where
  "record_shorts_post e d g u =
     (let now = now_epoch (clock_record e)
      in if record_fails e then Inl StorageError else Inr (insert_post d g u now))"

definition count_within_window ::
    "int \<Rightarrow> bool \<Rightarrow> database \<Rightarrow> int option \<Rightarrow> int \<Rightarrow> int \<Rightarrow> error + int" where
  "count_within_window clock fails d g u days =
     (let cutoff = window_start clock days
      in if fails then Inl StorageError else Inr (count_since d g u cutoff))"

text \<open>
  The block branch (source lines 116 to 148): delete the message, post the notice and
  remove it after eight seconds, send the private notice. \<^verbatim>\<open>Forbidden\<close> is a subclass of
  \<^verbatim>\<open>HTTPException\<close>, so the handlers around the delete and around the notice catch every
  failure, while the handler around the private notice catches \<^verbatim>\<open>Forbidden\<close> only: another
  \<^verbatim>\<open>HTTPException\<close> leaves \<^verbatim>\<open>on_message\<close>.
\<close>

definition block_actions :: "env \<Rightarrow> action list" where
  "block_actions e =
     (if DELETE_OFFENDING_MESSAGES then [DeleteMessage] else []) @
     [SendNotice (DELETE_OFFENDING_MESSAGES \<and> delete_result e = Forbidden)] @
     (if send_result e = Done then [Sleep 8, DeleteNotice] else []) @
     (if DM_USER_ON_BLOCK then [SendPrivateNotice] else [])"

definition block_message :: "env \<Rightarrow> world \<Rightarrow> (error + outcome) \<times> world" where
  "block_message e w =
     (if DM_USER_ON_BLOCK \<and> dm_result e = HTTPError then Inl DiscordHTTPException
      else Inr Blocked,
      w\<lparr>trace := trace w @ block_actions e\<rparr>)"

text \<open>
  \<^verbatim>\<open>on_message\<close>. The \<^verbatim>\<open>finally\<close> clause runs \<^verbatim>\<open>process_commands\<close> on every way out of
  the \<^verbatim>\<open>try\<close> block, also when an exception passes through.
\<close>

definition on_message :: "env \<Rightarrow> message \<Rightarrow> world \<Rightarrow> (error + outcome) \<times> world" where
  "on_message e m w =
     (if author_bot m \<or> truthy (webhook_id m) then (Inr Ignored, w)
      else if extract_shorts_links (content m) = [] then (Inr Passthrough, process_commands w)
      else case guild m of
        None \<Rightarrow> (Inr Passthrough, process_commands w)
      | Some g \<Rightarrow>
          (case count_within_window (clock_count e) (count_fails e) (store w) (Some g)
                  (author_id m) ROLLING_WINDOW_DAYS of
             Inl err \<Rightarrow> (Inl err, process_commands w)
           | Inr current_count \<Rightarrow>
               if current_count \<ge> 1 then
                 (case block_message e w of (res, w') \<Rightarrow> (res, process_commands w'))
               else
                 (case record_shorts_post e (store w) g (author_id m) of
                    Inl err \<Rightarrow> (Inl err, process_commands w)
                  | Inr d \<Rightarrow> (Inr Allowed, process_commands (w\<lparr>store := d\<rparr>)))))"

text \<open>The handler run on one message after another, each call ending before the next.\<close>

fun on_messages :: "(env \<times> message) list \<Rightarrow> world \<Rightarrow> (error + outcome) list \<times> world" where
  "on_messages [] w = ([], w)"
| "on_messages ((e, m) # rest) w =
     (case on_message e m w of (res, w') \<Rightarrow>
        (case on_messages rest w' of (ress, w'') \<Rightarrow> (res # ress, w'')))"

text \<open>
  The handler took the block branch: it returned from it, or the private notice, the last
  call of that branch, raised.
\<close>

definition blocked :: "error + outcome \<Rightarrow> bool" where
  "blocked res = (res = Inr Blocked \<or> res = Inl DiscordHTTPException)"

section \<open>The slash commands\<close>

record interaction =
  interaction_guild_id :: "int option"
  interaction_user_id :: int

text \<open>\<^verbatim>\<open>shorts_stats\<close>: the count of the member, or of the caller when no member is given.\<close>

definition shorts_stats ::
    "int \<Rightarrow> bool \<Rightarrow> interaction \<Rightarrow> int option \<Rightarrow> world \<Rightarrow> (error + int) \<times> world" where
  "shorts_stats clock fails i member w =
     (let member_id = (case member of None \<Rightarrow> interaction_user_id i | Some v \<Rightarrow> v)
      in case count_within_window clock fails (store w) (interaction_guild_id i) member_id
                ROLLING_WINDOW_DAYS of
           Inl err \<Rightarrow> (Inl err, w)
         | Inr n \<Rightarrow> (Inr n, w\<lparr>trace := trace w @ [Respond]\<rparr>))"

text \<open>\<^verbatim>\<open>shorts_reset_me\<close>: forget the caller's posts of the current window.\<close>

definition shorts_reset_me ::
    "int \<Rightarrow> bool \<Rightarrow> interaction \<Rightarrow> world \<Rightarrow> (error + unit) \<times> world" where
  "shorts_reset_me clock fails i w =
     (let cutoff = window_start clock ROLLING_WINDOW_DAYS
      in if fails then (Inl StorageError, w)
         else (Inr (),
               w\<lparr>store := delete_since (store w) (interaction_guild_id i)
                              (interaction_user_id i) cutoff,
                 trace := trace w @ [Respond]\<rparr>))"

section \<open>Handlers that overlap\<close>

text \<open>
  \<^verbatim>\<open>on_message\<close> is a coroutine: it gives up control at each \<^verbatim>\<open>await\<close>, and the event loop
  may then run another handler. Between the count (\<^verbatim>\<open>await count_within_window\<close>) and the
  insert (\<^verbatim>\<open>await record_shorts_post\<close>) nothing is held, so the two database statements of
  one handler are two separate steps. A handler that got past the guards of lines 99 to
  110 is in one of three phases; a step takes the clock reading at which it runs.
\<close>

datatype phase = Counting | Deciding int | Finished outcome

record task =
  task_guild :: int
  task_user :: int
  task_phase :: phase

definition new_task :: "int \<Rightarrow> int \<Rightarrow> task" where
  "new_task g u = \<lparr>task_guild = g, task_user = u, task_phase = Counting\<rparr>"

definition task_step :: "int \<Rightarrow> task \<Rightarrow> database \<Rightarrow> task \<times> database" where
  "task_step clock t d =
     (case task_phase t of
        Counting \<Rightarrow>
          (t\<lparr>task_phase := Deciding (count_since d (Some (task_guild t)) (task_user t)
                                      (window_start clock ROLLING_WINDOW_DAYS))\<rparr>, d)
      | Deciding current_count \<Rightarrow>
          if current_count \<ge> 1 then (t\<lparr>task_phase := Finished Blocked\<rparr>, d)
          else (t\<lparr>task_phase := Finished Allowed\<rparr>,
                insert_post d (task_guild t) (task_user t) (now_epoch clock))
      | Finished res \<Rightarrow> (t, d))"

text \<open>A schedule names, step by step, the handler that runs and the clock reading.\<close>

fun run_schedule :: "(nat \<times> int) list \<Rightarrow> task list \<Rightarrow> database \<Rightarrow> task list \<times> database" where
  "run_schedule [] ts d = (ts, d)"
| "run_schedule ((i, clock) # rest) ts d =
     (if i < length ts then
        (case task_step clock (ts ! i) d of (t', d') \<Rightarrow> run_schedule rest (ts[i := t']) d')
      else run_schedule rest ts d)"

section \<open>What the specification calls a qualifying link\<close>

text \<open>
  A link qualifies if it is an HTTP or HTTPS URL whose host is the video-sharing domain,
  with or without a prefix, and whose path begins with the short-form segment followed by
  an identifier of at least five URL-safe characters (letters, digits, underscore, hyphen);
  what follows the identifier is ignored. Scheme, host and path segment are compared
  without regard to case. URLs are ASCII, and so are the letters and the case folding here.
\<close>

definition ascii_fold :: "codepoint \<Rightarrow> codepoint" where
  "ascii_fold x = (if 65 \<le> x \<and> x \<le> 90 then x + 32 else x)"

definition url_safe :: "codepoint \<Rightarrow> bool" where
  "url_safe x =
     ((65 \<le> x \<and> x \<le> 90) \<or> (97 \<le> x \<and> x \<le> 122) \<or> (48 \<le> x \<and> x \<le> 57) \<or> x = 95 \<or> x = 45)"

definition ascii_ci_prefix :: "string \<Rightarrow> py_str \<Rightarrow> bool" where
  "ascii_ci_prefix cs s =
     (length cs \<le> length s \<and>
      list_all2 (\<lambda>c x. ascii_fold (of_char c) = ascii_fold x) cs (take (length cs) s))"

definition schemes :: "string list" where
  "schemes = [''http'', ''https'']"

definition link_heads :: "string list \<Rightarrow> string list" where
  "link_heads hosts =
     concat (map (\<lambda>sc. map (\<lambda>h. sc @ ''://'' @ h @ ''/shorts/'') hosts) schemes)"

definition starts_with_link :: "string list \<Rightarrow> py_str \<Rightarrow> bool" where
  "starts_with_link hosts s =
     list_ex (\<lambda>hd. ascii_ci_prefix hd s \<and> 5 \<le> length (takeWhile url_safe (drop (length hd) s)))
       (link_heads hosts)"

definition contains_link :: "string list \<Rightarrow> py_str \<Rightarrow> bool" where
  "contains_link hosts txt = list_ex (starts_with_link hosts) (suffixes txt)"

text \<open>
  The hosts as the specification lists them: the domain, with \<^verbatim>\<open>www.\<close>, or with the mobile
  subdomain. The pattern makes the two prefixes optional one after the other, which admits
  a fourth host.
\<close>

definition claimed_hosts :: "string list" where
  "claimed_hosts = [''youtube.com'', ''www.youtube.com'', ''m.youtube.com'']"

definition regex_hosts :: "string list" where
  "regex_hosts = [''youtube.com'', ''www.youtube.com'', ''m.youtube.com'', ''www.m.youtube.com'']"

text \<open>The four letters outside ASCII that \<^verbatim>\<open>re.IGNORECASE\<close> lets ASCII letters match.\<close>

definition ignorecase_only :: "codepoint list" where
  "ignorecase_only = [304, 305, 383, 8490]"

section \<open>Auxiliary notions\<close>

text \<open>
  \<open>ci_prefix cs s\<close>: the text \<open>s\<close> starts with the literal \<open>cs\<close> as the pattern compares
  it. \<open>heads_then hs r s\<close>: \<open>s\<close> starts with one of the literals \<open>hs\<close> and \<open>r\<close> matches
  what follows. \<open>regex_heads\<close> collects the literals that the optional parts of the pattern
  give rise to.
\<close>

definition ci_prefix :: "string \<Rightarrow> py_str \<Rightarrow> bool" where
  "ci_prefix cs s =
     (length cs \<le> length s \<and> list_all2 ignorecase_matches cs (take (length cs) s))"

definition heads_then :: "string list \<Rightarrow> re \<Rightarrow> py_str \<Rightarrow> bool" where
  "heads_then hs r s = list_ex (\<lambda>hd. ci_prefix hd s \<and> ms r (drop (length hd) s) \<noteq> []) hs"

definition opt_heads :: "string \<Rightarrow> string list \<Rightarrow> string list" where
  "opt_heads a hs = map ((@) a) hs @ hs"

definition regex_heads :: "string list" where
  "regex_heads =
     map ((@) ''http'') (opt_heads ''s'' (map ((@) ''://'')
       (opt_heads ''www.'' (opt_heads ''m.'' (map ((@) ''youtube.com/shorts/'') [[]])))))"

text \<open>
  \<open>reaches_engine m g\<close>: the message \<open>m\<close> passes the guards of lines 99 to 110, so the
  handler goes on to count the posts of its author in the guild \<open>g\<close>.
\<close>

definition reaches_engine :: "message \<Rightarrow> int \<Rightarrow> bool" where
  "reaches_engine m g =
     (\<not> author_bot m \<and> \<not> truthy (webhook_id m) \<and> extract_shorts_links (content m) \<noteq> [] \<and>
      guild m = Some g)"

text \<open>
  For a schedule in which one handler has inserted its row: \<open>steps_taken\<close> counts the
  database steps a handler has behind it, and \<open>late_task g u t\<close> says that the handler
  \<open>t\<close> of the pair has not counted yet, or has counted at least one row, or has ended
  blocked.
\<close>

fun steps_taken :: "phase \<Rightarrow> nat" where
  "steps_taken Counting = 0"
| "steps_taken (Deciding n) = 1"
| "steps_taken (Finished res) = 2"

fun sees_post :: "phase \<Rightarrow> bool" where
  "sees_post Counting = True"
| "sees_post (Deciding n) = (1 \<le> n)"
| "sees_post (Finished res) = (res = Blocked)"

definition late_task :: "int \<Rightarrow> int \<Rightarrow> task \<Rightarrow> bool" where
  "late_task g u t = (task_guild t = g \<and> task_user t = u \<and> sees_post (task_phase t))"

section \<open>Inputs for the examples\<close>

text \<open>
  An environment in which every call succeeds and both clock readings are \<open>clock\<close>; a
  message of user 20 in guild 10; texts with one and with two links; stores and worlds to
  run the handlers on.
\<close>

definition quiet_env :: "int \<Rightarrow> env" where
  "quiet_env clock =
     \<lparr>clock_count = clock, clock_record = clock, count_fails = False, record_fails = False,
      delete_result = Done, send_result = Done, notice_delete_result = Done, dm_result = Done\<rparr>"

definition link_message :: "py_str \<Rightarrow> message" where
  "link_message txt =
     \<lparr>author_bot = False, webhook_id = None, content = Some txt, guild = Some 10,
      author_id = 20\<rparr>"

definition one_link :: py_str where
  "one_link = codepoints ''http://youtube.com/shorts/abcde''"

definition two_links :: py_str where
  "two_links = codepoints ''http://youtube.com/shorts/abcde http://youtube.com/shorts/fghij''"

definition empty_world :: world where
  "empty_world = \<lparr>store = \<lparr>shorts_posts = [], last_id = 0\<rparr>, trace = []\<rparr>"

definition world_after_first :: world where
  "world_after_first =
     \<lparr>store = \<lparr>shorts_posts = [\<lparr>row_id = 1, guild_id = 10, user_id = 20, posted_at_utc = 5\<rparr>],
               last_id = 1\<rparr>,
      trace = [ProcessCommands]\<rparr>"

definition mixed_store :: database where
  "mixed_store =
     \<lparr>shorts_posts =
        [\<lparr>row_id = 1, guild_id = 10, user_id = 20, posted_at_utc = 100\<rparr>,
         \<lparr>row_id = 2, guild_id = 10, user_id = 21, posted_at_utc = 90000\<rparr>,
         \<lparr>row_id = 3, guild_id = 10, user_id = 20, posted_at_utc = 90000\<rparr>,
         \<lparr>row_id = 4, guild_id = 10, user_id = 20, posted_at_utc = 691195\<rparr>],
      last_id = 4\<rparr>"

definition store_after_reset :: database where
  "store_after_reset =
     \<lparr>shorts_posts =
        [\<lparr>row_id = 1, guild_id = 10, user_id = 20, posted_at_utc = 100\<rparr>,
         \<lparr>row_id = 2, guild_id = 10, user_id = 21, posted_at_utc = 90000\<rparr>],
      last_id = 4\<rparr>"

definition caller :: interaction where
  "caller = \<lparr>interaction_guild_id = Some 10, interaction_user_id = 20\<rparr>"

section \<open>The link matcher: proofs\<close>

subsection \<open>What the pattern matches at the start of a text\<close>

lemma ci_prefix_Nil: "ci_prefix [] s"
  by (simp add: ci_prefix_def)

lemma ci_prefix_Cons:
  "ci_prefix (c # cs) s =
     (case s of [] \<Rightarrow> False | x # xs \<Rightarrow> ignorecase_matches c x \<and> ci_prefix cs xs)"
  by (cases s) (auto simp: ci_prefix_def)

lemma ci_prefix_append:
  "ci_prefix (a @ b) s = (ci_prefix a s \<and> ci_prefix b (drop (length a) s))"
proof (induction a arbitrary: s)
  case Nil
  show ?case by (simp add: ci_prefix_Nil)
next
  case (Cons c a)
  show ?case by (cases s) (simp_all add: ci_prefix_Cons Cons.IH)
qed

lemma ms_str_single: "ms (str [c]) s = ms (Lit c) s"
  by (cases s) (simp_all add: str_def match_char_def)

lemma ms_str: "ms (str cs) s = (if ci_prefix cs s then [drop (length cs) s] else [])"
proof (induction cs arbitrary: s)
  case Nil
  show ?case by (simp add: str_def ci_prefix_Nil)
next
  case (Cons c cs)
  have step: "ms (str (c # cs)) s =
      concat (map (ms (str cs)) (match_char (ignorecase_matches c) s))"
    by (simp add: str_def)
  show ?case
    unfolding step by (cases s) (simp_all add: match_char_def ci_prefix_Cons Cons.IH)
qed

lemma heads_then_base: "ms r s \<noteq> [] \<longleftrightarrow> heads_then [[]] r s"
  by (simp add: heads_then_def ci_prefix_Nil)

lemma heads_then_prepend:
  "ci_prefix a s \<and> heads_then hs r (drop (length a) s) \<longleftrightarrow> heads_then (map ((@) a) hs) r s"
  by (auto simp: heads_then_def list_ex_iff ci_prefix_append add.commute)

lemma heads_then_append:
  "heads_then (hs @ hs') r s \<longleftrightarrow> heads_then hs r s \<or> heads_then hs' r s"
  by (auto simp: heads_then_def list_ex_iff)

lemma ms_Seq_str:
  assumes "\<And>t. ms r' t \<noteq> [] \<longleftrightarrow> heads_then hs r t"
  shows "ms (Seq (str a) r') s \<noteq> [] \<longleftrightarrow> heads_then (map ((@) a) hs) r s"
proof -
  have "ms (Seq (str a) r') s \<noteq> [] \<longleftrightarrow> ci_prefix a s \<and> ms r' (drop (length a) s) \<noteq> []"
    by (simp add: ms_str)
  then show ?thesis
    by (simp only: assms heads_then_prepend)
qed

lemma ms_Seq_Opt_str:
  assumes "\<And>t. ms r' t \<noteq> [] \<longleftrightarrow> heads_then hs r t"
  shows "ms (Seq (Opt (str a)) r') s \<noteq> [] \<longleftrightarrow> heads_then (opt_heads a hs) r s"
proof -
  have "ms (Seq (Opt (str a)) r') s \<noteq> [] \<longleftrightarrow>
          (ci_prefix a s \<and> ms r' (drop (length a) s) \<noteq> []) \<or> ms r' s \<noteq> []"
    by (simp add: ms_str)
  then show ?thesis
    by (simp only: assms heads_then_prepend heads_then_append opt_heads_def)
qed

lemma ms_Seq_Opt_Lit:
  assumes "\<And>t. ms r' t \<noteq> [] \<longleftrightarrow> heads_then hs r t"
  shows "ms (Seq (Opt (Lit c)) r') s \<noteq> [] \<longleftrightarrow> heads_then (opt_heads [c] hs) r s"
proof -
  have "ms (Seq (Opt (Lit c)) r') s = ms (Seq (Opt (str [c])) r') s"
    by (simp add: ms_str_single)
  then show ?thesis
    by (simp only: ms_Seq_Opt_str[OF assms])
qed

lemmas ms_Seq_steps = ms_Seq_str ms_Seq_Opt_Lit ms_Seq_Opt_str

lemma ms_Star_nonempty: "ms (Star a) s \<noteq> []"
  by (simp add: ms_Star)

lemma ms_at_least_class:
  "ms (at_least n (OneOf items)) s \<noteq> [] \<longleftrightarrow> n \<le> length (takeWhile (in_class items) s)"
proof (induction n arbitrary: s)
  case 0
  show ?case by (simp add: ms_Star_nonempty)
next
  case (Suc n)
  show ?case by (cases s) (simp_all add: match_char_def Suc.IH)
qed

lemma ms_Seq_Opt_last: "ms (Seq a (Seq (Opt b) Eps)) s \<noteq> [] \<longleftrightarrow> ms a s \<noteq> []"
  by auto

lemma ms_link_tail: "ms link_tail s \<noteq> [] \<longleftrightarrow> 5 \<le> length (takeWhile (in_class id_class) s)"
  unfolding link_tail_def by (simp only: ms_Seq_Opt_last ms_at_least_class)

lemma ms_SHORTS_REGEX_heads:
  "ms SHORTS_REGEX s \<noteq> [] \<longleftrightarrow> heads_then regex_heads link_tail s"
  unfolding SHORTS_REGEX_def regex_heads_def
  by (rule ms_Seq_steps, rule ms_Seq_steps, rule ms_Seq_steps, rule ms_Seq_steps,
      rule ms_Seq_steps, rule ms_Seq_steps, rule heads_then_base)

lemma regex_heads_list:
  "regex_heads =
     [''https://www.m.youtube.com/shorts/'', ''https://www.youtube.com/shorts/'',
      ''https://m.youtube.com/shorts/'', ''https://youtube.com/shorts/'',
      ''http://www.m.youtube.com/shorts/'', ''http://www.youtube.com/shorts/'',
      ''http://m.youtube.com/shorts/'', ''http://youtube.com/shorts/'']"
  by (simp add: regex_heads_def opt_heads_def)

lemma link_heads_regex_hosts:
  "link_heads regex_hosts =
     [''http://youtube.com/shorts/'', ''http://www.youtube.com/shorts/'',
      ''http://m.youtube.com/shorts/'', ''http://www.m.youtube.com/shorts/'',
      ''https://youtube.com/shorts/'', ''https://www.youtube.com/shorts/'',
      ''https://m.youtube.com/shorts/'', ''https://www.m.youtube.com/shorts/'']"
  by (simp add: link_heads_def regex_hosts_def schemes_def)

lemma set_regex_heads: "set regex_heads = set (link_heads regex_hosts)"
  unfolding regex_heads_list link_heads_regex_hosts list.set
  by (intro set_eqI iffI; elim insertE emptyE; hypsubst; intro insertI1 insertI2)

lemma ms_SHORTS_REGEX_nonempty:
  "ms SHORTS_REGEX s \<noteq> [] \<longleftrightarrow>
     list_ex (\<lambda>hd. ci_prefix hd s \<and>
                   5 \<le> length (takeWhile (in_class id_class) (drop (length hd) s)))
       (link_heads regex_hosts)"
  unfolding ms_SHORTS_REGEX_heads heads_then_def ms_link_tail list_ex_iff set_regex_heads ..

subsection \<open>The pattern against the specification's words\<close>

lemma ascii_fold_matches:
  "ascii_fold (of_char c) = ascii_fold x \<Longrightarrow> ignorecase_matches c x"
  by (auto simp: ascii_fold_def ignorecase_matches_def ignorecase_folds_def split: if_splits)

lemma matches_ascii_fold:
  "x \<notin> set ignorecase_only \<Longrightarrow> ignorecase_matches c x \<Longrightarrow> ascii_fold (of_char c) = ascii_fold x"
  by (auto simp: ascii_fold_def ignorecase_matches_def ignorecase_folds_def ignorecase_only_def
      split: if_splits)

lemma url_safe_in_class: "url_safe x \<Longrightarrow> in_class id_class x"
  by (auto simp: url_safe_def in_class_def id_class_def ignorecase_matches_def
      ignorecase_folds_def)

lemma in_class_url_safe: "x \<notin> set ignorecase_only \<Longrightarrow> in_class id_class x \<Longrightarrow> url_safe x"
  by (auto simp: url_safe_def in_class_def id_class_def ignorecase_matches_def
      ignorecase_folds_def ignorecase_only_def split: if_splits)

lemma ascii_ci_prefix_imp: "ascii_ci_prefix cs s \<Longrightarrow> ci_prefix cs s"
  unfolding ascii_ci_prefix_def ci_prefix_def
  by (auto elim!: list.rel_mono_strong intro: ascii_fold_matches)

lemma ci_prefix_imp:
  assumes "set s \<inter> set ignorecase_only = {}" and "ci_prefix cs s"
  shows "ascii_ci_prefix cs s"
proof -
  have "list_all2 (\<lambda>c x. ascii_fold (of_char c) = ascii_fold x) cs (take (length cs) s)"
  proof (rule list.rel_mono_strong)
    show "list_all2 ignorecase_matches cs (take (length cs) s)"
      using assms(2) by (simp add: ci_prefix_def)
  next
    fix c x assume x: "x \<in> set (take (length cs) s)" and m: "ignorecase_matches c x"
    from x have "x \<in> set s" by (rule in_set_takeD)
    with assms(1) have "x \<notin> set ignorecase_only" by blast
    then show "ascii_fold (of_char c) = ascii_fold x" using m by (rule matches_ascii_fold)
  qed
  with assms(2) show ?thesis by (simp add: ascii_ci_prefix_def ci_prefix_def)
qed

lemma takeWhile_length_mono:
  "(\<And>x. P x \<Longrightarrow> Q x) \<Longrightarrow> length (takeWhile P s) \<le> length (takeWhile Q s)"
  by (induction s) auto

lemma takeWhile_in_class:
  assumes "set s \<inter> set ignorecase_only = {}"
  shows "takeWhile (in_class id_class) s = takeWhile url_safe s"
proof (rule takeWhile_cong[OF refl])
  fix x assume "x \<in> set s"
  with assms have "x \<notin> set ignorecase_only" by blast
  then show "in_class id_class x = url_safe x"
    using url_safe_in_class in_class_url_safe by blast
qed

lemma starts_with_link_matches:
  assumes "starts_with_link regex_hosts s"
  shows "ms SHORTS_REGEX s \<noteq> []"
proof -
  from assms obtain hd where hd: "hd \<in> set (link_heads regex_hosts)"
    and p: "ascii_ci_prefix hd s" and n: "5 \<le> length (takeWhile url_safe (drop (length hd) s))"
    by (auto simp: starts_with_link_def list_ex_iff)
  from n takeWhile_length_mono[of url_safe "in_class id_class", OF url_safe_in_class]
  have "5 \<le> length (takeWhile (in_class id_class) (drop (length hd) s))"
    by (rule order_trans)
  with hd ascii_ci_prefix_imp[OF p] show ?thesis
    unfolding ms_SHORTS_REGEX_nonempty list_ex_iff by blast
qed

lemma matches_starts_with_link:
  assumes "set s \<inter> set ignorecase_only = {}" and "ms SHORTS_REGEX s \<noteq> []"
  shows "starts_with_link regex_hosts s"
proof -
  from assms(2) obtain hd where hd: "hd \<in> set (link_heads regex_hosts)"
    and p: "ci_prefix hd s"
    and n: "5 \<le> length (takeWhile (in_class id_class) (drop (length hd) s))"
    unfolding ms_SHORTS_REGEX_nonempty list_ex_iff by blast
  have "set (drop (length hd) s) \<inter> set ignorecase_only = {}"
    using assms(1) set_drop_subset[of "length hd" s] by blast
  from n takeWhile_in_class[OF this]
  have "5 \<le> length (takeWhile url_safe (drop (length hd) s))" by simp
  with hd ci_prefix_imp[OF assms(1) p] show ?thesis
    unfolding starts_with_link_def list_ex_iff by blast
qed

lemma findall_from_nonempty:
  "findall_from r False s \<noteq> [] \<longleftrightarrow> (\<exists>t\<in>set (suffixes s). ms r t \<noteq> [])"
proof (induction s)
  case Nil
  show ?case
    by (subst findall_from.simps) (auto simp: find_None_iff split: option.splits)
next
  case (Cons x s)
  have "findall_from r False (x # s) \<noteq> [] \<longleftrightarrow>
          ms r (x # s) \<noteq> [] \<or> findall_from r False s \<noteq> []"
    by (subst findall_from.simps) (auto simp: find_None_iff split: option.splits)
  then show ?case by (auto simp: Cons.IH)
qed

lemma contains_link_found:
  assumes "contains_link regex_hosts txt"
  shows "extract_shorts_links (Some txt) \<noteq> []"
proof -
  from assms obtain t where "t \<in> set (suffixes txt)" and "starts_with_link regex_hosts t"
    by (auto simp: contains_link_def list_ex_iff)
  then have "\<exists>t\<in>set (suffixes txt). ms SHORTS_REGEX t \<noteq> []"
    using starts_with_link_matches by blast
  then show ?thesis
    by (simp add: extract_shorts_links_def findall_def findall_from_nonempty)
qed

lemma found_contains_link:
  assumes "set txt \<inter> set ignorecase_only = {}" and "extract_shorts_links (Some txt) \<noteq> []"
  shows "contains_link regex_hosts txt"
proof -
  from assms(2) obtain t where t: "t \<in> set (suffixes txt)" and m: "ms SHORTS_REGEX t \<noteq> []"
    by (auto simp: extract_shorts_links_def findall_def findall_from_nonempty)
  from t have "set t \<subseteq> set txt" by (auto simp: in_set_suffixes dest: set_mono_suffix)
  with assms(1) have "set t \<inter> set ignorecase_only = {}" by blast
  from matches_starts_with_link[OF this m] t show ?thesis
    by (auto simp: contains_link_def list_ex_iff)
qed

subsection \<open>Evaluating the matcher on a given text\<close>

lemma at_least_5: "at_least 5 r = Seq r (Seq r (Seq r (Seq r (Seq r (Star r)))))"
  by (simp add: eval_nat_numeral)

lemmas matcher_eval =
  at_least_5 extract_shorts_links_def findall_def findall_from.simps SHORTS_REGEX_def
  link_tail_def id_class_def str_def codepoints_def match_char_def in_class_def
  ignorecase_matches_def ignorecase_folds_def ms_Star

lemmas link_eval =
  contains_link_def starts_with_link_def link_heads_def schemes_def ascii_ci_prefix_def
  ascii_fold_def url_safe_def codepoints_def suffixes.simps

text \<open>
  The letters that \<^verbatim>\<open>re.IGNORECASE\<close> adds are matched: five Kelvin signs pass for an
  identifier, although no URL-safe character is among them.
\<close>

lemma ignorecase_letters_matched:
  "extract_shorts_links
     (Some (codepoints ''http://youtube.com/shorts/'' @ [8490, 8490, 8490, 8490, 8490])) \<noteq> [] \<and>
   \<not> contains_link regex_hosts
     (codepoints ''http://youtube.com/shorts/'' @ [8490, 8490, 8490, 8490, 8490])"
  by (simp add: matcher_eval link_eval regex_hosts_def)

text \<open>
  C3. \<^verbatim>\<open>find_links\<close> returns a non-empty sequence exactly for the texts that contain a
  qualifying link. With the hosts as the specification lists them this fails: the pattern
  also matches the host \<^verbatim>\<open>www.m.youtube.com\<close>, which is neither the domain, nor the
  domain with \<^verbatim>\<open>www.\<close>, nor the domain with the mobile subdomain.
\<close>

theorem find_links_claimed_hosts_counterexample:
  "extract_shorts_links (Some (codepoints ''https://www.m.youtube.com/shorts/abcde'')) \<noteq> [] \<and>
   \<not> contains_link claimed_hosts (codepoints ''https://www.m.youtube.com/shorts/abcde'')"
proof
  show "extract_shorts_links (Some (codepoints ''https://www.m.youtube.com/shorts/abcde'')) \<noteq> []"
    by (simp add: matcher_eval)
  show "\<not> contains_link claimed_hosts (codepoints ''https://www.m.youtube.com/shorts/abcde'')"
    by (simp add: link_eval claimed_hosts_def)
qed

text \<open>
  C3, amended. With \<^verbatim>\<open>www.m.youtube.com\<close> among the hosts: every text that contains a
  qualifying link is matched, and a text that is matched and holds none of the four letters
  outside ASCII that \<^verbatim>\<open>re.IGNORECASE\<close> adds contains a qualifying link.
\<close>

theorem find_links_iff_contains_link:
  "(contains_link regex_hosts txt \<longrightarrow> extract_shorts_links (Some txt) \<noteq> []) \<and>
   (set txt \<inter> set ignorecase_only = {} \<longrightarrow>
      (extract_shorts_links (Some txt) \<noteq> [] \<longleftrightarrow> contains_link regex_hosts txt))"
  using contains_link_found found_contains_link by blast

theorem find_links_iff_contains_link_witness:
  "contains_link regex_hosts (codepoints ''see HTTPS://M.YouTube.com/Shorts/aB3_-x?t=1'') \<and>
   set (codepoints ''see HTTPS://M.YouTube.com/Shorts/aB3_-x?t=1'') \<inter> set ignorecase_only = {} \<and>
   extract_shorts_links (Some (codepoints ''see HTTPS://M.YouTube.com/Shorts/aB3_-x?t=1'')) \<noteq> []"
proof -
  have a: "contains_link regex_hosts (codepoints ''see HTTPS://M.YouTube.com/Shorts/aB3_-x?t=1'')"
    by (simp add: link_eval regex_hosts_def)
  have b: "set (codepoints ''see HTTPS://M.YouTube.com/Shorts/aB3_-x?t=1'') \<inter>
      set ignorecase_only = {}"
    by (simp add: codepoints_def ignorecase_only_def)
  from a b find_links_iff_contains_link[of "codepoints ''see HTTPS://M.YouTube.com/Shorts/aB3_-x?t=1''"]
  show ?thesis by blast
qed

section \<open>The store and the clock: proofs\<close>

lemma count_rows_filter: "count_rows P rs = int (length (filter P rs))"
  by (induction rs) simp_all

lemma delete_rows_filter: "delete_rows P rs = filter (\<lambda>r. \<not> P r) rs"
  by (induction rs) simp_all

lemma count_rows_append: "count_rows P (rs @ rs') = count_rows P rs + count_rows P rs'"
  by (induction rs) simp_all

lemma count_rows_nonneg: "0 \<le> count_rows P rs"
  by (simp add: count_rows_filter)

lemma count_rows_zero_iff: "count_rows P rs = 0 \<longleftrightarrow> (\<forall>r\<in>set rs. \<not> P r)"
  by (simp add: count_rows_filter filter_empty_conv)

lemma trunc_seconds_mono: "a \<le> b \<Longrightarrow> trunc_seconds a \<le> trunc_seconds b"
proof -
  assume ab: "a \<le> b"
  consider "0 \<le> a" | "a < 0" "0 \<le> b" | "a < 0" "b < 0" by linarith
  then show ?thesis
  proof cases
    case 1
    with ab show ?thesis by (simp add: trunc_seconds_def zdiv_mono1)
  next
    case 2
    have "0 \<le> (- a) div 1000000" using 2(1) by (simp add: pos_imp_zdiv_nonneg_iff)
    moreover have "0 \<le> b div 1000000" using 2(2) by (simp add: pos_imp_zdiv_nonneg_iff)
    ultimately show ?thesis using 2 by (simp add: trunc_seconds_def)
  next
    case 3
    have "(- b) div 1000000 \<le> (- a) div 1000000" using ab by (simp add: zdiv_mono1)
    with 3 show ?thesis by (simp add: trunc_seconds_def)
  qed
qed

lemma window_start_mono: "a \<le> b \<Longrightarrow> window_start a days \<le> window_start b days"
  by (simp add: window_start_def trunc_seconds_mono)

lemma window_start_le_now_epoch:
  "a - days * 86400 * 1000000 \<le> b \<Longrightarrow> window_start a days \<le> now_epoch b"
  by (simp add: window_start_def now_epoch_def trunc_seconds_mono)

lemma count_since_insert_post:
  "count_since (insert_post d g u t) (Some g) u cutoff =
     count_since d (Some g) u cutoff + (if cutoff \<le> t then 1 else 0)"
  by (simp add: count_since_def insert_post_def count_rows_append in_window_def)

lemma count_since_nonneg: "0 \<le> count_since d g u cutoff"
  by (simp add: count_since_def count_rows_nonneg)

lemma count_since_delete_since:
  "c \<le> c' \<Longrightarrow> count_since (delete_since d g u c) g u c' = 0"
  by (auto simp: count_since_def delete_since_def count_rows_zero_iff delete_rows_filter
      in_window_def split: option.splits)

lemma delete_since_idem:
  assumes "c \<le> c'"
  shows "delete_since (delete_since d g u c) g u c' = delete_since d g u c"
proof -
  have imp: "\<And>r. \<not> in_window g u c r \<Longrightarrow> \<not> in_window g u c' r"
    using assms by (auto simp: in_window_def)
  have "filter (\<lambda>r. \<not> in_window g u c' r) (filter (\<lambda>r. \<not> in_window g u c r) (shorts_posts d))
      = filter (\<lambda>r. \<not> in_window g u c r) (shorts_posts d)"
    by (rule filter_True) (simp add: imp)
  then show ?thesis by (simp add: delete_since_def delete_rows_filter)
qed

lemma on_message_engine:
  assumes "reaches_engine m g" and "\<not> count_fails e"
  shows "on_message e m w =
     (if 1 \<le> count_since (store w) (Some g) (author_id m)
               (window_start (clock_count e) ROLLING_WINDOW_DAYS)
      then (fst (block_message e w), process_commands (snd (block_message e w)))
      else if record_fails e then (Inl StorageError, process_commands w)
      else (Inr Allowed, process_commands (w\<lparr>store :=
              insert_post (store w) g (author_id m) (now_epoch (clock_record e))\<rparr>)))"
  using assms
  by (simp add: reaches_engine_def on_message_def count_within_window_def record_shorts_post_def
      split: prod.splits)

lemma blocked_block_message: "blocked (fst (block_message e w))"
  by (simp add: block_message_def blocked_def)

lemma store_block_message: "store (process_commands (snd (block_message e w))) = store w"
  by (simp add: block_message_def process_commands_def)

lemma not_blocked_Allowed: "\<not> blocked (Inr Allowed)"
  by (simp add: blocked_def)

section \<open>The handler: proofs\<close>

lemma one_link_found: "extract_shorts_links (Some one_link) = [one_link]"
  by (simp add: one_link_def matcher_eval)

lemma two_links_found:
  "extract_shorts_links (Some two_links) =
     [codepoints ''http://youtube.com/shorts/abcde'', codepoints ''http://youtube.com/shorts/fghij'']"
  by (simp add: two_links_def matcher_eval)

lemma reaches_engine_one_link: "reaches_engine (link_message one_link) 10"
  by (simp add: reaches_engine_def link_message_def truthy_def one_link_found)

lemmas handler_eval =
  on_message_def count_within_window_def record_shorts_post_def block_message_def
  block_actions_def process_commands_def count_since_def insert_post_def in_window_def
  window_start_def now_epoch_def trunc_seconds_def truthy_def ROLLING_WINDOW_DAYS_def
  DELETE_OFFENDING_MESSAGES_def DM_USER_ON_BLOCK_def quiet_env_def link_message_def
  empty_world_def blocked_def

lemma in_window_Some:
  "in_window (Some g) u cutoff =
     (\<lambda>r. guild_id r = g \<and> user_id r = u \<and> cutoff \<le> posted_at_utc r)"
  by (simp add: in_window_def fun_eq_iff)

text \<open>
  C4. The count is a non-negative integer, the exact number of rows of the pair at or after
  the cutoff, and rows of other pairs do not enter it.
\<close>

theorem count_since_exact:
  "count_since d (Some g) u cutoff =
     int (card {i. i < length (shorts_posts d) \<and> guild_id (shorts_posts d ! i) = g \<and>
                   user_id (shorts_posts d ! i) = u \<and>
                   cutoff \<le> posted_at_utc (shorts_posts d ! i)}) \<and>
   0 \<le> count_since d (Some g) u cutoff \<and>
   count_since (d\<lparr>shorts_posts := filter (\<lambda>r. guild_id r = g \<and> user_id r = u) (shorts_posts d)\<rparr>)
     (Some g) u cutoff = count_since d (Some g) u cutoff"
proof -
  have "count_since d (Some g) u cutoff =
      int (length (filter (\<lambda>r. guild_id r = g \<and> user_id r = u \<and> cutoff \<le> posted_at_utc r)
        (shorts_posts d)))"
    by (simp add: count_since_def count_rows_filter in_window_Some)
  moreover have "filter (in_window (Some g) u cutoff)
      (filter (\<lambda>r. guild_id r = g \<and> user_id r = u) (shorts_posts d))
      = filter (in_window (Some g) u cutoff) (shorts_posts d)"
    by (auto simp: in_window_Some intro: filter_cong)
  ultimately show ?thesis
    by (simp add: length_filter_conv_card count_since_def count_rows_filter)
qed

theorem count_since_exact_witness:
  "count_since mixed_store (Some 10) 20 90000 = 2 \<and>
   int (card {i. i < length (shorts_posts mixed_store) \<and>
                 guild_id (shorts_posts mixed_store ! i) = 10 \<and>
                 user_id (shorts_posts mixed_store ! i) = 20 \<and>
                 90000 \<le> posted_at_utc (shorts_posts mixed_store ! i)}) = 2"
  using count_since_exact[of mixed_store 10 20 90000]
  by (simp add: count_since_def in_window_def mixed_store_def)

text \<open>
  C9. A message of a bot or of a webhook is dropped at once: whatever its text and whatever
  the database and the platform would answer, the handler returns with the store and the
  trace of platform calls as they were.
\<close>

theorem self_or_system_ignored:
  "author_bot m \<or> (\<exists>n. webhook_id m = Some n \<and> n \<noteq> 0) \<Longrightarrow> on_message e m w = (Inr Ignored, w)"
  by (auto simp: on_message_def truthy_def)

theorem self_or_system_ignored_witness:
  "on_message (quiet_env 0) ((link_message one_link)\<lparr>author_bot := True\<rparr>) empty_world
     = (Inr Ignored, empty_world) \<and>
   on_message (quiet_env 0) ((link_message one_link)\<lparr>webhook_id := Some 77\<rparr>) empty_world
     = (Inr Ignored, empty_world)"
  using self_or_system_ignored[of "(link_message one_link)\<lparr>author_bot := True\<rparr>" "quiet_env 0" empty_world]
    self_or_system_ignored[of "(link_message one_link)\<lparr>webhook_id := Some 77\<rparr>" "quiet_env 0" empty_world]
  by (simp add: link_message_def)

text \<open>
  C10. A message with a link but without a guild goes to command processing and nothing
  else happens: the database is not asked (the result does not depend on what it would
  answer), no row is written and no call to delete or notify is made.
\<close>

theorem no_guild_passthrough:
  assumes "\<not> author_bot m" and "\<not> truthy (webhook_id m)"
    and "extract_shorts_links (content m) \<noteq> []" and "guild m = None"
  shows "on_message e m w = (Inr Passthrough, w\<lparr>trace := trace w @ [ProcessCommands]\<rparr>)"
  using assms by (simp add: on_message_def process_commands_def)

theorem no_guild_passthrough_witness:
  "extract_shorts_links (content ((link_message one_link)\<lparr>guild := None\<rparr>)) \<noteq> [] \<and>
   on_message ((quiet_env 0)\<lparr>count_fails := True\<rparr>) ((link_message one_link)\<lparr>guild := None\<rparr>)
     empty_world
     = (Inr Passthrough, empty_world\<lparr>trace := [ProcessCommands]\<rparr>)"
proof -
  have l: "extract_shorts_links (content ((link_message one_link)\<lparr>guild := None\<rparr>)) \<noteq> []"
    by (simp add: link_message_def one_link_found)
  from l no_guild_passthrough[of "(link_message one_link)\<lparr>guild := None\<rparr>"
      "(quiet_env 0)\<lparr>count_fails := True\<rparr>" empty_world]
  show ?thesis by (simp add: link_message_def truthy_def empty_world_def)
qed

text \<open>
  C5. When the count query raises, or the count is zero and the insert raises, the handler
  raises the storage error (after the command processing of its \<^verbatim>\<open>finally\<close> clause): no
  row is written, no call of the block branch is made, and the call ends neither as an
  allowed nor as a blocked message.
\<close>

theorem storage_failure_propagates:
  assumes "reaches_engine m g"
    and "count_fails e \<or>
         (count_since (store w) (Some g) (author_id m)
            (window_start (clock_count e) ROLLING_WINDOW_DAYS) < 1 \<and> record_fails e)"
  shows "on_message e m w = (Inl StorageError, w\<lparr>trace := trace w @ [ProcessCommands]\<rparr>) \<and>
         \<not> blocked (fst (on_message e m w)) \<and> fst (on_message e m w) \<noteq> Inr Allowed"
proof (cases "count_fails e")
  case True
  with assms(1) show ?thesis
    by (simp add: reaches_engine_def on_message_def count_within_window_def
        process_commands_def blocked_def)
next
  case False
  with assms(2) on_message_engine[OF assms(1) False, of w] show ?thesis
    by (simp add: process_commands_def blocked_def)
qed

theorem storage_failure_propagates_witness:
  "reaches_engine (link_message one_link) 10 \<and>
   on_message ((quiet_env 0)\<lparr>count_fails := True\<rparr>) (link_message one_link) empty_world
     = (Inl StorageError, empty_world\<lparr>trace := [ProcessCommands]\<rparr>) \<and>
   on_message ((quiet_env 0)\<lparr>record_fails := True\<rparr>) (link_message one_link) empty_world
     = (Inl StorageError, empty_world\<lparr>trace := [ProcessCommands]\<rparr>)"
proof -
  have c: "count_since (store empty_world) (Some 10) (author_id (link_message one_link))
      (window_start (clock_count ((quiet_env 0)\<lparr>record_fails := True\<rparr>)) ROLLING_WINDOW_DAYS) < 1"
    by (simp add: handler_eval)
  from reaches_engine_one_link c
    storage_failure_propagates[OF reaches_engine_one_link,
      of "(quiet_env 0)\<lparr>count_fails := True\<rparr>" empty_world]
    storage_failure_propagates[OF reaches_engine_one_link,
      of "(quiet_env 0)\<lparr>record_fails := True\<rparr>" empty_world]
  show ?thesis by (simp add: quiet_env_def empty_world_def)
qed

text \<open>
  C1. The quota decision. With a count of at least one the handler takes the block branch
  and leaves the table as it was; otherwise it appends exactly one row for the pair,
  stamped with the clock reading of the insert, and the message is allowed. After an
  allowed message, a second message of the same pair whose count is taken no more than the
  window after that clock reading is blocked and leaves the store unchanged.
\<close>

theorem quota_decision:
  assumes "reaches_engine m g" and "\<not> count_fails e" and "\<not> record_fails e"
    and "on_message e m w = (res, w')"
  shows "(1 \<le> count_since (store w) (Some g) (author_id m)
                (window_start (clock_count e) ROLLING_WINDOW_DAYS) \<longrightarrow>
            blocked res \<and> store w' = store w) \<and>
         (count_since (store w) (Some g) (author_id m)
                (window_start (clock_count e) ROLLING_WINDOW_DAYS) < 1 \<longrightarrow>
            res = Inr Allowed \<and>
            shorts_posts (store w') = shorts_posts (store w) @
              [\<lparr>row_id = last_id (store w) + 1, guild_id = g, user_id = author_id m,
                posted_at_utc = now_epoch (clock_record e)\<rparr>]) \<and>
         (res = Inr Allowed \<longrightarrow>
            (\<forall>e2 m2. reaches_engine m2 g \<and> author_id m2 = author_id m \<and> \<not> count_fails e2 \<and>
                clock_count e2 - ROLLING_WINDOW_DAYS * 86400 * 1000000 \<le> clock_record e \<longrightarrow>
                blocked (fst (on_message e2 m2 w')) \<and>
                store (snd (on_message e2 m2 w')) = store w'))"
proof (intro conjI impI allI)
  assume "1 \<le> count_since (store w) (Some g) (author_id m)
                (window_start (clock_count e) ROLLING_WINDOW_DAYS)"
  with assms(4) on_message_engine[OF assms(1,2), of w]
  have "res = fst (block_message e w)" and "w' = process_commands (snd (block_message e w))"
    by simp_all
  then show "blocked res" and "store w' = store w"
    by (simp_all add: blocked_block_message store_block_message)
next
  assume "count_since (store w) (Some g) (author_id m)
                (window_start (clock_count e) ROLLING_WINDOW_DAYS) < 1"
  with assms(3,4) on_message_engine[OF assms(1,2), of w]
  show "res = Inr Allowed" and "shorts_posts (store w') = shorts_posts (store w) @
              [\<lparr>row_id = last_id (store w) + 1, guild_id = g, user_id = author_id m,
                posted_at_utc = now_epoch (clock_record e)\<rparr>]"
    by (auto simp: process_commands_def insert_post_def)
next
  fix e2 :: env and m2 :: message
  assume a: "res = Inr Allowed"
    and b: "reaches_engine m2 g \<and> author_id m2 = author_id m \<and> \<not> count_fails e2 \<and>
                clock_count e2 - ROLLING_WINDOW_DAYS * 86400 * 1000000 \<le> clock_record e"
  have w': "store w' = insert_post (store w) g (author_id m) (now_epoch (clock_record e))"
  proof (cases "1 \<le> count_since (store w) (Some g) (author_id m)
                (window_start (clock_count e) ROLLING_WINDOW_DAYS)")
    case True
    with assms(4) on_message_engine[OF assms(1,2), of w]
    have "res = fst (block_message e w)" by simp
    with a blocked_block_message[of e w] not_blocked_Allowed show ?thesis by simp
  next
    case False
    with assms(3,4) on_message_engine[OF assms(1,2), of w] show ?thesis
      by (auto simp: process_commands_def)
  qed
  from b have "window_start (clock_count e2) ROLLING_WINDOW_DAYS \<le> now_epoch (clock_record e)"
    by (simp add: window_start_le_now_epoch)
  then have "1 \<le> count_since (store w') (Some g) (author_id m2)
                (window_start (clock_count e2) ROLLING_WINDOW_DAYS)"
    using b count_since_nonneg[of "store w" "Some g" "author_id m"
        "window_start (clock_count e2) ROLLING_WINDOW_DAYS"]
    by (simp add: w' count_since_insert_post)
  with b on_message_engine[of m2 g e2 w']
  have "on_message e2 m2 w' =
      (fst (block_message e2 w'), process_commands (snd (block_message e2 w')))"
    by simp
  then show "blocked (fst (on_message e2 m2 w'))"
    and "store (snd (on_message e2 m2 w')) = store w'"
    by (simp_all add: blocked_block_message store_block_message)
qed

lemma first_message_allowed:
  "on_message (quiet_env 5000000) (link_message one_link) empty_world
     = (Inr Allowed, world_after_first)"
  by (simp add: handler_eval one_link_found world_after_first_def)

theorem quota_decision_witness:
  "reaches_engine (link_message one_link) 10 \<and>
   on_message (quiet_env 5000000) (link_message one_link) empty_world
     = (Inr Allowed, world_after_first) \<and>
   blocked (fst (on_message (quiet_env 259205000000) (link_message one_link) world_after_first)) \<and>
   store (snd (on_message (quiet_env 259205000000) (link_message one_link) world_after_first))
     = store world_after_first"
proof -
  have q: "\<forall>e2 m2. reaches_engine m2 10 \<and> author_id m2 = author_id (link_message one_link) \<and>
                \<not> count_fails e2 \<and>
                clock_count e2 - ROLLING_WINDOW_DAYS * 86400 * 1000000
                  \<le> clock_record (quiet_env 5000000) \<longrightarrow>
                blocked (fst (on_message e2 m2 world_after_first)) \<and>
                store (snd (on_message e2 m2 world_after_first)) = store world_after_first"
    using quota_decision[OF reaches_engine_one_link _ _ first_message_allowed]
    by (simp add: quiet_env_def)
  have "blocked (fst (on_message (quiet_env 259205000000) (link_message one_link) world_after_first)) \<and>
      store (snd (on_message (quiet_env 259205000000) (link_message one_link) world_after_first))
        = store world_after_first"
    using q[rule_format, of "link_message one_link" "quiet_env 259205000000"]
      reaches_engine_one_link
    by (simp add: quiet_env_def ROLLING_WINDOW_DAYS_def)
  with reaches_engine_one_link first_message_allowed show ?thesis by simp
qed

lemma block_message_not_Allowed: "fst (block_message e w) \<noteq> Inr Allowed"
  by (simp add: block_message_def)

text \<open>
  C7. An allowed message adds exactly one row, however many links it holds: the handler
  looks at the list of links only to see that it is not empty, so every other text with a
  link leads to the same result and the same store.
\<close>

theorem one_record_per_allowed_message:
  assumes "on_message e m w = (Inr Allowed, w')"
  shows "(\<exists>g. guild m = Some g \<and>
            shorts_posts (store w') = shorts_posts (store w) @
              [\<lparr>row_id = last_id (store w) + 1, guild_id = g, user_id = author_id m,
                posted_at_utc = now_epoch (clock_record e)\<rparr>]) \<and>
         (\<forall>c. extract_shorts_links c \<noteq> [] \<longrightarrow>
            on_message e (m\<lparr>content := c\<rparr>) w = (Inr Allowed, w'))"
proof -
  from assms have g: "\<not> author_bot m" "\<not> truthy (webhook_id m)"
    "extract_shorts_links (content m) \<noteq> []"
    by (auto simp: on_message_def split: if_splits)
  with assms obtain g where gm: "guild m = Some g"
    by (cases "guild m") (auto simp: on_message_def)
  from g gm have r: "reaches_engine m g" by (simp add: reaches_engine_def)
  from assms have cf: "\<not> count_fails e"
    using g gm by (auto simp: on_message_def count_within_window_def)
  from assms on_message_engine[OF r cf, of w] block_message_not_Allowed[of e w]
  have cnt: "\<not> 1 \<le> count_since (store w) (Some g) (author_id m)
               (window_start (clock_count e) ROLLING_WINDOW_DAYS)"
    and rf: "\<not> record_fails e"
    and w': "w' = process_commands (w\<lparr>store :=
              insert_post (store w) g (author_id m) (now_epoch (clock_record e))\<rparr>)"
    by (auto split: if_splits)
  have "shorts_posts (store w') = shorts_posts (store w) @
              [\<lparr>row_id = last_id (store w) + 1, guild_id = g, user_id = author_id m,
                posted_at_utc = now_epoch (clock_record e)\<rparr>]"
    by (simp add: w' process_commands_def insert_post_def)
  moreover have "on_message e (m\<lparr>content := c\<rparr>) w = (Inr Allowed, w')"
    if "extract_shorts_links c \<noteq> []" for c
  proof -
    from that g gm have "reaches_engine (m\<lparr>content := c\<rparr>) g"
      by (simp add: reaches_engine_def)
    from on_message_engine[OF this cf, of w] cnt rf w' show ?thesis by simp
  qed
  ultimately show ?thesis using gm by blast
qed

theorem one_record_per_allowed_message_witness:
  "length (extract_shorts_links (content (link_message two_links))) = 2 \<and>
   on_message (quiet_env 5000000) (link_message two_links) empty_world
     = (Inr Allowed, world_after_first) \<and>
   shorts_posts (store world_after_first)
     = [\<lparr>row_id = 1, guild_id = 10, user_id = 20, posted_at_utc = 5\<rparr>] \<and>
   on_message (quiet_env 5000000) ((link_message two_links)\<lparr>content := Some one_link\<rparr>) empty_world
     = (Inr Allowed, world_after_first)"
proof -
  have a: "on_message (quiet_env 5000000) (link_message two_links) empty_world
     = (Inr Allowed, world_after_first)"
    by (simp add: handler_eval two_links_found world_after_first_def)
  have b: "extract_shorts_links (Some one_link) \<noteq> []"
    by (simp add: one_link_found)
  from a b one_record_per_allowed_message[OF a] show ?thesis
    by (simp add: link_message_def two_links_found world_after_first_def)
qed

text \<open>
  C6. The reset removes exactly the rows of the caller's pair at or after the start of the
  window and keeps every other row, in order. A second reset at the same or a later clock
  reading changes nothing more, and a message of the pair that is counted at or after the
  reset is allowed.
\<close>

theorem reset_deletes_window:
  assumes "interaction_guild_id i = Some g" and "interaction_user_id i = u"
    and "shorts_reset_me clock False i w = (res, w')"
  shows "shorts_posts (store w') =
           filter (\<lambda>r. \<not> (guild_id r = g \<and> user_id r = u \<and>
                          window_start clock ROLLING_WINDOW_DAYS \<le> posted_at_utc r))
             (shorts_posts (store w)) \<and>
         (\<forall>clock2. clock \<le> clock2 \<longrightarrow>
            store (snd (shorts_reset_me clock2 False i w')) = store w') \<and>
         (\<forall>e m. reaches_engine m g \<and> author_id m = u \<and> \<not> count_fails e \<and> \<not> record_fails e \<and>
            clock \<le> clock_count e \<longrightarrow> fst (on_message e m w') = Inr Allowed)"
proof (intro conjI allI impI)
  from assms have w': "store w' =
      delete_since (store w) (Some g) u (window_start clock ROLLING_WINDOW_DAYS)"
    by (auto simp: shorts_reset_me_def)
  show "shorts_posts (store w') =
           filter (\<lambda>r. \<not> (guild_id r = g \<and> user_id r = u \<and>
                          window_start clock ROLLING_WINDOW_DAYS \<le> posted_at_utc r))
             (shorts_posts (store w))"
    by (simp add: w' delete_since_def delete_rows_filter in_window_Some)
  { fix clock2 :: int
    assume "clock \<le> clock2"
    then have "window_start clock ROLLING_WINDOW_DAYS \<le> window_start clock2 ROLLING_WINDOW_DAYS"
      by (rule window_start_mono)
    then show "store (snd (shorts_reset_me clock2 False i w')) = store w'"
      using assms(1,2) by (simp add: shorts_reset_me_def w' delete_since_idem) }
  { fix e :: env and m :: message
    assume a: "reaches_engine m g \<and> author_id m = u \<and> \<not> count_fails e \<and> \<not> record_fails e \<and>
            clock \<le> clock_count e"
    then have "window_start clock ROLLING_WINDOW_DAYS
        \<le> window_start (clock_count e) ROLLING_WINDOW_DAYS"
      by (simp add: window_start_mono)
    then have "count_since (store w') (Some g) u
        (window_start (clock_count e) ROLLING_WINDOW_DAYS) = 0"
      by (simp add: w' count_since_delete_since)
    with a on_message_engine[of m g e w'] show "fst (on_message e m w') = Inr Allowed"
      by simp }
qed

theorem reset_deletes_window_witness:
  "shorts_reset_me 691200000000 False caller \<lparr>store = mixed_store, trace = []\<rparr>
     = (Inr (), \<lparr>store = store_after_reset, trace = [Respond]\<rparr>) \<and>
   store (snd (shorts_reset_me 691200000000 False caller
        \<lparr>store = store_after_reset, trace = [Respond]\<rparr>))
     = store_after_reset \<and>
   fst (on_message (quiet_env 691205000000) (link_message one_link)
        \<lparr>store = store_after_reset, trace = [Respond]\<rparr>) = Inr Allowed \<and>
   fst (on_message (quiet_env 691199000000) (link_message one_link)
        \<lparr>store = mixed_store, trace = []\<rparr>) = Inr Blocked"
proof -
  have r: "shorts_reset_me 691200000000 False caller \<lparr>store = mixed_store, trace = []\<rparr>
     = (Inr (), \<lparr>store = store_after_reset, trace = [Respond]\<rparr>)"
    by (simp add: shorts_reset_me_def delete_since_def mixed_store_def store_after_reset_def
        caller_def handler_eval)
  have b: "fst (on_message (quiet_env 691199000000) (link_message one_link)
        \<lparr>store = mixed_store, trace = []\<rparr>) = Inr Blocked"
    by (simp add: handler_eval one_link_found mixed_store_def)
  have c: "interaction_guild_id caller = Some 10" "interaction_user_id caller = 20"
    by (simp_all add: caller_def)
  note t = reset_deletes_window[OF c r]
  from t[THEN conjunct2, THEN conjunct1, rule_format, of 691200000000]
  have "store (snd (shorts_reset_me 691200000000 False caller
        \<lparr>store = store_after_reset, trace = [Respond]\<rparr>))
     = store_after_reset"
    by simp
  moreover from reaches_engine_one_link
    t[THEN conjunct2, THEN conjunct2, rule_format, of "link_message one_link" "quiet_env 691205000000"]
  have "fst (on_message (quiet_env 691205000000) (link_message one_link)
        \<lparr>store = store_after_reset, trace = [Respond]\<rparr>) = Inr Allowed"
    by (simp add: quiet_env_def link_message_def)
  ultimately show ?thesis using r b by simp
qed

lemma findall_from_sublist: "l \<in> set (findall_from r ma s) \<Longrightarrow> sublist l s"
proof (induction r ma s rule: findall_from.induct)
  case (1 r ma s)
  show ?case
  proof (cases "find (\<lambda>t. \<not> ma \<or> t \<noteq> s) (ms r s)")
    case None
    show ?thesis
    proof (cases s)
      case Nil
      with None "1.prems" show ?thesis by (simp add: findall_from.simps[of r ma "[]"])
    next
      case (Cons x s')
      with None "1.prems" have "l \<in> set (findall_from r False s')"
        by (simp add: findall_from.simps[of r ma "x # s'"])
      with "1.IH" None Cons have "sublist l s'" by blast
      then show ?thesis
        by (simp add: Cons sublist_Cons_right)
    qed
  next
    case (Some t)
    then have "t \<in> set (ms r s)" by (auto simp: find_Some_iff)
    then have suf: "suffix t s" by (rule ms_suffix)
    from Some "1.prems" consider "l = take (length s - length t) s"
      | "t = s" "l \<in> set (findall_from r True s)"
      | "t \<noteq> s" "l \<in> set (findall_from r False t)"
      by (auto simp: findall_from.simps[of r ma s] split: if_splits)
    then show ?thesis
    proof cases
      case 1
      have "prefix (take (length s - length t) s) s" by (rule take_is_prefix)
      with 1 show ?thesis by (simp add: prefix_imp_sublist)
    next
      case 2
      with "1.IH" Some show ?thesis by blast
    next
      case 3
      with "1.IH" Some have "sublist l t" by blast
      with suf show ?thesis
        by (meson sublist_order.order.trans suffix_imp_sublist)
    qed
  qed
qed

text \<open>
  C8. The matcher is a function of the text alone, defined on every text (its scan
  terminates), the absent text included. On the absent and on the empty text it returns the
  empty list, and whatever it returns is a list of contiguous pieces of the text.
\<close>

theorem extract_shorts_links_total:
  "extract_shorts_links None = [] \<and> extract_shorts_links (Some []) = [] \<and>
   (\<forall>l\<in>set (extract_shorts_links txt). sublist l (case txt of None \<Rightarrow> [] | Some t \<Rightarrow> t))"
proof (intro conjI ballI)
  show "extract_shorts_links None = []" by (simp add: matcher_eval)
  show "extract_shorts_links (Some []) = []" by (simp add: matcher_eval)
  fix l assume "l \<in> set (extract_shorts_links txt)"
  then show "sublist l (case txt of None \<Rightarrow> [] | Some t \<Rightarrow> t)"
    unfolding extract_shorts_links_def findall_def by (rule findall_from_sublist)
qed

theorem extract_shorts_links_total_witness:
  "extract_shorts_links None = [] \<and> extract_shorts_links (Some []) = [] \<and>
   extract_shorts_links (Some two_links) =
     [codepoints ''http://youtube.com/shorts/abcde'', codepoints ''http://youtube.com/shorts/fghij''] \<and>
   sublist (codepoints ''http://youtube.com/shorts/abcde'') two_links \<and>
   sublist (codepoints ''http://youtube.com/shorts/fghij'') two_links"
  using extract_shorts_links_total[of "Some two_links"] two_links_found by simp

section \<open>Handlers that overlap: proofs\<close>

text \<open>
  The two steps of a task, run one right after the other, are the handler: same store,
  same decision.
\<close>

lemma store_snd_block_message: "store (snd (block_message e w)) = store w"
  by (simp add: block_message_def)

lemma task_steps_on_message:
  assumes "reaches_engine m g" and "\<not> count_fails e" and "\<not> record_fails e"
    and "task_step (clock_count e) (new_task g (author_id m)) (store w) = (t1, d1)"
    and "task_step (clock_record e) t1 d1 = (t2, d2)"
  shows "d2 = store (snd (on_message e m w)) \<and>
         (task_phase t2 = Finished Allowed \<longleftrightarrow> fst (on_message e m w) = Inr Allowed) \<and>
         (task_phase t2 = Finished Blocked \<longleftrightarrow> blocked (fst (on_message e m w)))"
  using assms(3,4,5) on_message_engine[OF assms(1,2), of w]
    blocked_block_message[of e w] block_message_not_Allowed[of e w]
  by (auto simp: task_step_def new_task_def store_snd_block_message process_commands_def
      not_blocked_Allowed split: if_splits)

text \<open>
  C2. Handlers of one pair that run at the same time yield exactly one allowed message and
  one new row. This fails: no lock and no transaction spans the count and the insert, so
  two handlers can both count zero before either inserts, and then both insert.
\<close>

theorem overlapping_handlers_counterexample:
  "run_schedule [(0, 5000000), (1, 5000000), (0, 5000000), (1, 5000000)]
     [new_task 10 20, new_task 10 20] \<lparr>shorts_posts = [], last_id = 0\<rparr>
   = ([\<lparr>task_guild = 10, task_user = 20, task_phase = Finished Allowed\<rparr>,
       \<lparr>task_guild = 10, task_user = 20, task_phase = Finished Allowed\<rparr>],
      \<lparr>shorts_posts = [\<lparr>row_id = 1, guild_id = 10, user_id = 20, posted_at_utc = 5\<rparr>,
                       \<lparr>row_id = 2, guild_id = 10, user_id = 20, posted_at_utc = 5\<rparr>],
       last_id = 2\<rparr>)"
  by (simp add: task_step_def new_task_def count_since_def insert_post_def in_window_def
      window_start_def now_epoch_def trunc_seconds_def ROLLING_WINDOW_DAYS_def)

lemma on_messages_all_blocked:
  assumes "\<forall>(e, m)\<in>set rest. reaches_engine m g \<and> author_id m = u \<and> \<not> count_fails e \<and>
             1 \<le> count_since (store w) (Some g) u
                    (window_start (clock_count e) ROLLING_WINDOW_DAYS)"
    and "on_messages rest w = (ress, w')"
  shows "length ress = length rest \<and> (\<forall>b\<in>set ress. blocked b) \<and> store w' = store w"
  using assms
proof (induction rest arbitrary: w ress w')
  case Nil
  then show ?case by simp
next
  case (Cons em rest)
  obtain e m where em: "em = (e, m)" by (cases em)
  from Cons.prems(1) em have h: "reaches_engine m g" "author_id m = u" "\<not> count_fails e"
    "1 \<le> count_since (store w) (Some g) u (window_start (clock_count e) ROLLING_WINDOW_DAYS)"
    by auto
  obtain res w1 where r: "on_message e m w = (res, w1)" by (cases "on_message e m w")
  with h on_message_engine[OF h(1,3), of w]
  have b: "blocked res" and s: "store w1 = store w"
    by (auto simp: blocked_block_message store_block_message)
  obtain ress1 w2 where rr: "on_messages rest w1 = (ress1, w2)"
    by (cases "on_messages rest w1")
  from Cons.prems(1) s have "\<forall>(e, m)\<in>set rest. reaches_engine m g \<and> author_id m = u \<and>
      \<not> count_fails e \<and> 1 \<le> count_since (store w1) (Some g) u
                    (window_start (clock_count e) ROLLING_WINDOW_DAYS)"
    by auto
  from Cons.IH[OF this rr] have ih: "length ress1 = length rest" "\<forall>b\<in>set ress1. blocked b"
    "store w2 = store w1" by auto
  from Cons.prems(2) em r rr have "ress = res # ress1" "w' = w2" by auto
  with ih b s show ?case by auto
qed

text \<open>
  Handlers of one pair that run one after another, the first finding no row in its window
  and the later ones counting within the window of the first insert: the first message is
  allowed, every later one is blocked, and exactly one row is added.
\<close>

lemma sequential_handlers_one_allow:
  assumes "\<forall>(e, m)\<in>set ((e0, m0) # rest). reaches_engine m g \<and> author_id m = u \<and>
             \<not> count_fails e \<and> \<not> record_fails e"
    and "count_since (store w) (Some g) u
           (window_start (clock_count e0) ROLLING_WINDOW_DAYS) = 0"
    and "\<forall>(e, m)\<in>set rest.
           clock_count e - ROLLING_WINDOW_DAYS * 86400 * 1000000 \<le> clock_record e0"
    and "on_messages ((e0, m0) # rest) w = (ress, w')"
  shows "\<exists>bs. ress = Inr Allowed # bs \<and> length bs = length rest \<and> (\<forall>b\<in>set bs. blocked b) \<and>
           shorts_posts (store w') = shorts_posts (store w) @
             [\<lparr>row_id = last_id (store w) + 1, guild_id = g, user_id = u,
               posted_at_utc = now_epoch (clock_record e0)\<rparr>]"
proof -
  from assms(1) have h0: "reaches_engine m0 g" "author_id m0 = u" "\<not> count_fails e0"
    "\<not> record_fails e0" by auto
  define w1 where "w1 = process_commands (w\<lparr>store :=
      insert_post (store w) g u (now_epoch (clock_record e0))\<rparr>)"
  from h0 assms(2) on_message_engine[OF h0(1,3), of w]
  have first: "on_message e0 m0 w = (Inr Allowed, w1)" by (simp add: w1_def)
  have s1: "store w1 = insert_post (store w) g u (now_epoch (clock_record e0))"
    by (simp add: w1_def process_commands_def)
  obtain bs w2 where rr: "on_messages rest w1 = (bs, w2)" by (cases "on_messages rest w1")
  have "\<forall>(e, m)\<in>set rest. reaches_engine m g \<and> author_id m = u \<and> \<not> count_fails e \<and>
      1 \<le> count_since (store w1) (Some g) u (window_start (clock_count e) ROLLING_WINDOW_DAYS)"
  proof (intro ballI, clarify)
    fix e m assume em: "(e, m) \<in> set rest"
    with assms(1) have a: "reaches_engine m g" "author_id m = u" "\<not> count_fails e" by auto
    from em assms(3)
    have "window_start (clock_count e) ROLLING_WINDOW_DAYS \<le> now_epoch (clock_record e0)"
      by (auto simp: window_start_le_now_epoch)
    then have "1 \<le> count_since (store w1) (Some g) u
        (window_start (clock_count e) ROLLING_WINDOW_DAYS)"
      using count_since_nonneg[of "store w" "Some g" u
          "window_start (clock_count e) ROLLING_WINDOW_DAYS"]
      by (simp add: s1 count_since_insert_post)
    with a show "reaches_engine m g \<and> author_id m = u \<and> \<not> count_fails e \<and>
      1 \<le> count_since (store w1) (Some g) u (window_start (clock_count e) ROLLING_WINDOW_DAYS)"
      by simp
  qed
  from on_messages_all_blocked[OF this rr]
  have b: "length bs = length rest" "\<forall>b\<in>set bs. blocked b" "store w2 = store w1" by auto
  from assms(4) first rr have "ress = Inr Allowed # bs" "w' = w2" by auto
  with b s1 show ?thesis by (simp add: insert_post_def)
qed

lemma sequential_handlers_example:
  "on_messages [(quiet_env 5000000, link_message one_link),
                (quiet_env 5000001, link_message one_link),
                (quiet_env 259205000000, link_message one_link)] empty_world
   = ([Inr Allowed, Inr Blocked, Inr Blocked],
      \<lparr>store = \<lparr>shorts_posts = [\<lparr>row_id = 1, guild_id = 10, user_id = 20, posted_at_utc = 5\<rparr>],
                last_id = 1\<rparr>,
       trace = [ProcessCommands,
                DeleteMessage, SendNotice False, Sleep 8, DeleteNotice, SendPrivateNotice,
                ProcessCommands,
                DeleteMessage, SendNotice False, Sleep 8, DeleteNotice, SendPrivateNotice,
                ProcessCommands]\<rparr>) \<and>
   blocked (Inr Blocked)"
proof -
  have run: "on_messages [(quiet_env 5000000, link_message one_link),
                (quiet_env 5000001, link_message one_link),
                (quiet_env 259205000000, link_message one_link)] empty_world
   = ([Inr Allowed, Inr Blocked, Inr Blocked],
      \<lparr>store = \<lparr>shorts_posts = [\<lparr>row_id = 1, guild_id = 10, user_id = 20, posted_at_utc = 5\<rparr>],
                last_id = 1\<rparr>,
       trace = [ProcessCommands,
                DeleteMessage, SendNotice False, Sleep 8, DeleteNotice, SendPrivateNotice,
                ProcessCommands,
                DeleteMessage, SendNotice False, Sleep 8, DeleteNotice, SendPrivateNotice,
                ProcessCommands]\<rparr>)"
    by (simp add: handler_eval one_link_found)
  have pre: "\<forall>(e, m)\<in>set ((quiet_env 5000000, link_message one_link) #
        [(quiet_env 5000001, link_message one_link),
         (quiet_env 259205000000, link_message one_link)]).
      reaches_engine m 10 \<and> author_id m = 20 \<and> \<not> count_fails e \<and> \<not> record_fails e"
    using reaches_engine_one_link by (simp add: quiet_env_def link_message_def)
  have zero: "count_since (store empty_world) (Some 10) 20
      (window_start (clock_count (quiet_env 5000000)) ROLLING_WINDOW_DAYS) = 0"
    by (simp add: handler_eval)
  have win: "\<forall>(e, m)\<in>set [(quiet_env 5000001, link_message one_link),
         (quiet_env 259205000000, link_message one_link)].
      clock_count e - ROLLING_WINDOW_DAYS * 86400 * 1000000 \<le> clock_record (quiet_env 5000000)"
    by (simp add: quiet_env_def ROLLING_WINDOW_DAYS_def)
  from sequential_handlers_one_allow[OF pre zero win run] run show ?thesis
    by (simp add: blocked_def)
qed

lemma task_step_late:
  assumes "late_task g u t"
    and "1 \<le> count_since d (Some g) u (window_start c ROLLING_WINDOW_DAYS)"
  shows "\<exists>t'. task_step c t d = (t', d) \<and> late_task g u t' \<and>
           steps_taken (task_phase t') = min 2 (Suc (steps_taken (task_phase t)))"
  using assms by (cases "task_phase t") (auto simp: task_step_def late_task_def)

lemma task_step_Finished: "task_phase t = Finished res \<Longrightarrow> task_step c t d = (t, d)"
  by (simp add: task_step_def)

lemma run_schedule_after_insert:
  assumes "i < length ts" and "task_phase (ts ! i) = Finished Allowed"
    and "\<forall>j<length ts. j \<noteq> i \<longrightarrow> late_task g u (ts ! j)"
    and "\<forall>(j, c)\<in>set rest. 1 \<le> count_since d (Some g) u (window_start c ROLLING_WINDOW_DAYS)"
    and "run_schedule rest ts d = (ts', d')"
  shows "d' = d \<and> length ts' = length ts \<and> task_phase (ts' ! i) = Finished Allowed \<and>
         (\<forall>j<length ts. j \<noteq> i \<longrightarrow> late_task g u (ts' ! j) \<and>
            min 2 (steps_taken (task_phase (ts ! j)) + count_list (map fst rest) j)
              \<le> steps_taken (task_phase (ts' ! j)))"
  using assms
proof (induction rest arbitrary: ts)
  case Nil
  then show ?case by simp
next
  case (Cons jc rest)
  obtain k c where jc: "jc = (k, c)" by (cases jc)
  from Cons.prems(4) jc
  have seen: "1 \<le> count_since d (Some g) u (window_start c ROLLING_WINDOW_DAYS)"
    and seen': "\<forall>(j, c)\<in>set rest.
        1 \<le> count_since d (Some g) u (window_start c ROLLING_WINDOW_DAYS)"
    by auto
  consider "\<not> k < length ts" | "k = i" | "k < length ts" "k \<noteq> i" by blast
  then show ?case
  proof cases
    case 1
    with Cons.prems(5) jc have run: "run_schedule rest ts d = (ts', d')" by simp
    from 1 have "\<forall>j<length ts. count_list (map fst (jc # rest)) j = count_list (map fst rest) j"
      by (auto simp: jc)
    with Cons.IH[OF Cons.prems(1,2,3) seen' run] show ?thesis by simp
  next
    case 2
    with Cons.prems(1,2,5) jc have run: "run_schedule rest ts d = (ts', d')"
      by (simp add: task_step_Finished)
    from 2 have "\<forall>j<length ts. j \<noteq> i \<longrightarrow>
        count_list (map fst (jc # rest)) j = count_list (map fst rest) j"
      by (auto simp: jc)
    with Cons.IH[OF Cons.prems(1,2,3) seen' run] show ?thesis by simp
  next
    case 3
    from Cons.prems(3) 3 have "late_task g u (ts ! k)" by simp
    from task_step_late[OF this seen] obtain t' where
      st: "task_step c (ts ! k) d = (t', d)" and lt: "late_task g u t'"
      and n: "steps_taken (task_phase t') = min 2 (Suc (steps_taken (task_phase (ts ! k))))"
      by blast
    from Cons.prems(5) jc 3 st have run: "run_schedule rest (ts[k := t']) d = (ts', d')"
      by simp
    have p1: "i < length (ts[k := t'])" using Cons.prems(1) by simp
    have p2: "task_phase (ts[k := t'] ! i) = Finished Allowed"
      using Cons.prems(2) 3 by simp
    have p3: "\<forall>j<length (ts[k := t']). j \<noteq> i \<longrightarrow> late_task g u (ts[k := t'] ! j)"
      using Cons.prems(3) lt 3(1) by (auto simp: nth_list_update)
    note ih = Cons.IH[OF p1 p2 p3 seen' run]
    have "min 2 (steps_taken (task_phase (ts ! j)) + count_list (map fst (jc # rest)) j)
        \<le> steps_taken (task_phase (ts' ! j))" if "j < length ts" "j \<noteq> i" for j
    proof -
      from ih that
      have a: "min 2 (steps_taken (task_phase (ts[k := t'] ! j)) + count_list (map fst rest) j)
          \<le> steps_taken (task_phase (ts' ! j))" by simp
      show ?thesis
      proof (cases "j = k")
        case True
        with a 3 n show ?thesis by (simp add: jc)
      next
        case False
        with a show ?thesis by (simp add: jc)
      qed
    qed
    with ih show ?thesis by simp
  qed
qed

lemma Finished_by_steps:
  "sees_post p \<Longrightarrow> 2 \<le> steps_taken p \<Longrightarrow> p = Finished Blocked"
  by (cases p) auto

lemma sees_post_not_Allowed: "sees_post p \<Longrightarrow> p \<noteq> Finished Allowed"
  by (cases p) auto

text \<open>
  C2, amended. Handlers of one pair with no row in the window, of which one counts and
  inserts before any other takes a step, the others running in any interleaving and
  counting within the window of that insert: the first is the only one allowed, every
  other handler that gets its two steps ends blocked, and exactly one row is added.
\<close>

theorem head_start_one_allow:
  assumes "i < n"
    and "count_since d (Some g) u (window_start c0 ROLLING_WINDOW_DAYS) = 0"
    and "\<forall>(j, c)\<in>set rest. c - ROLLING_WINDOW_DAYS * 86400 * 1000000 \<le> c1"
    and "run_schedule ((i, c0) # (i, c1) # rest) (replicate n (new_task g u)) d = (ts', d')"
  shows "length ts' = n \<and> task_phase (ts' ! i) = Finished Allowed \<and>
         (\<forall>j<n. j \<noteq> i \<longrightarrow> task_phase (ts' ! j) \<noteq> Finished Allowed \<and>
            (2 \<le> count_list (map fst rest) j \<longrightarrow> task_phase (ts' ! j) = Finished Blocked)) \<and>
         shorts_posts d' = shorts_posts d @
           [\<lparr>row_id = last_id d + 1, guild_id = g, user_id = u, posted_at_utc = now_epoch c1\<rparr>]"
proof -
  define d1 where "d1 = insert_post d g u (now_epoch c1)"
  define ts2 where
    "ts2 = (replicate n (new_task g u))[i := (new_task g u)\<lparr>task_phase := Finished Allowed\<rparr>]"
  from assms(1,2,4) have run: "run_schedule rest ts2 d1 = (ts', d')"
    by (simp add: task_step_def new_task_def ts2_def d1_def)
  have p1: "i < length ts2" using assms(1) by (simp add: ts2_def)
  have p2: "task_phase (ts2 ! i) = Finished Allowed" using assms(1) by (simp add: ts2_def)
  have p3: "\<forall>j<length ts2. j \<noteq> i \<longrightarrow> late_task g u (ts2 ! j)"
    by (simp add: ts2_def late_task_def new_task_def)
  have p4: "\<forall>(j, c)\<in>set rest.
      1 \<le> count_since d1 (Some g) u (window_start c ROLLING_WINDOW_DAYS)"
  proof (intro ballI, clarify)
    fix j c assume "(j, c) \<in> set rest"
    with assms(3) have "window_start c ROLLING_WINDOW_DAYS \<le> now_epoch c1"
      by (auto simp: window_start_le_now_epoch)
    then show "1 \<le> count_since d1 (Some g) u (window_start c ROLLING_WINDOW_DAYS)"
      using count_since_nonneg[of d "Some g" u "window_start c ROLLING_WINDOW_DAYS"]
      by (simp add: d1_def count_since_insert_post)
  qed
  note r = run_schedule_after_insert[OF p1 p2 p3 p4 run]
  have len: "length ts2 = n" by (simp add: ts2_def)
  have others: "task_phase (ts' ! j) \<noteq> Finished Allowed \<and>
      (2 \<le> count_list (map fst rest) j \<longrightarrow> task_phase (ts' ! j) = Finished Blocked)"
    if "j < n" "j \<noteq> i" for j
  proof -
    from r that len have l: "late_task g u (ts' ! j)"
      and s: "min 2 (steps_taken (task_phase (ts2 ! j)) + count_list (map fst rest) j)
          \<le> steps_taken (task_phase (ts' ! j))" by auto
    from l have sp: "sees_post (task_phase (ts' ! j))" by (simp add: late_task_def)
    from s have "2 \<le> count_list (map fst rest) j \<Longrightarrow> 2 \<le> steps_taken (task_phase (ts' ! j))"
      by simp
    with sp show ?thesis
      using Finished_by_steps sees_post_not_Allowed by blast
  qed
  from r len others show ?thesis by (simp add: d1_def insert_post_def)
qed

theorem head_start_one_allow_witness:
  "count_since \<lparr>shorts_posts = [], last_id = 0\<rparr> (Some 10) 20
     (window_start 5000000 ROLLING_WINDOW_DAYS) = 0 \<and>
   run_schedule [(0, 5000000), (0, 5000000), (1, 5000000), (2, 5000000), (1, 5000000),
                 (2, 5000000)]
     (replicate 3 (new_task 10 20)) \<lparr>shorts_posts = [], last_id = 0\<rparr>
   = ([\<lparr>task_guild = 10, task_user = 20, task_phase = Finished Allowed\<rparr>,
       \<lparr>task_guild = 10, task_user = 20, task_phase = Finished Blocked\<rparr>,
       \<lparr>task_guild = 10, task_user = 20, task_phase = Finished Blocked\<rparr>],
      \<lparr>shorts_posts = [\<lparr>row_id = 1, guild_id = 10, user_id = 20, posted_at_utc = 5\<rparr>],
       last_id = 1\<rparr>)"
proof -
  obtain ts' d' where run: "run_schedule ((0, 5000000) # (0, 5000000) #
        [(1, 5000000), (2, 5000000), (1, 5000000), (2, 5000000)])
      (replicate 3 (new_task 10 20)) \<lparr>shorts_posts = [], last_id = 0\<rparr> = (ts', d')"
    by (cases "run_schedule ((0, 5000000) # (0, 5000000) #
        [(1, 5000000), (2, 5000000), (1, 5000000), (2, 5000000)])
      (replicate 3 (new_task 10 20)) \<lparr>shorts_posts = [], last_id = 0\<rparr>")
  have zero: "count_since \<lparr>shorts_posts = [], last_id = 0\<rparr> (Some 10) 20
      (window_start 5000000 ROLLING_WINDOW_DAYS) = 0"
    by (simp add: count_since_def)
  have win: "\<forall>(j, c)\<in>set [(1::nat, 5000000::int), (2, 5000000), (1, 5000000), (2, 5000000)].
      c - ROLLING_WINDOW_DAYS * 86400 * 1000000 \<le> 5000000"
    by (simp add: ROLLING_WINDOW_DAYS_def)
  have i: "(0::nat) < 3" by simp
  note t = head_start_one_allow[OF i zero win run]
  have "run_schedule ((0, 5000000) # (0, 5000000) #
        [(1, 5000000), (2, 5000000), (1, 5000000), (2, 5000000)])
      (replicate 3 (new_task 10 20)) \<lparr>shorts_posts = [], last_id = 0\<rparr>
   = ([\<lparr>task_guild = 10, task_user = 20, task_phase = Finished Allowed\<rparr>,
       \<lparr>task_guild = 10, task_user = 20, task_phase = Finished Blocked\<rparr>,
       \<lparr>task_guild = 10, task_user = 20, task_phase = Finished Blocked\<rparr>],
      \<lparr>shorts_posts = [\<lparr>row_id = 1, guild_id = 10, user_id = 20, posted_at_utc = 5\<rparr>],
       last_id = 1\<rparr>)"
    by (simp add: task_step_def new_task_def count_since_def insert_post_def in_window_def
        window_start_def now_epoch_def trunc_seconds_def ROLLING_WINDOW_DAYS_def
        numeral_3_eq_3 numeral_2_eq_2)
  with t zero show ?thesis by simp
qed

end
